theory Spec2Isabelle
  imports Main "HOL-Library.Sublist"
begin

section \<open>Strings and the regular expressions of the note application\<close>

text \<open>
  The application is the React component \<open>BearNotesApp\<close>. Its strings are modelled as
  \<open>string\<close>; the character classes of the source (\<open>\w\<close>, \<open>\s\<close>, \<open>.\<close>), \<open>toLowerCase\<close>
  and \<open>trim\<close> are modelled on the ASCII range, a character outside of it being neither a
  word character, nor white space, nor a letter with a lower case.
\<close>

definition isUpper :: "char \<Rightarrow> bool" where
  "isUpper c = (let n = (of_char c :: nat) in 65 \<le> n \<and> n \<le> 90)"

definition isWordChar :: "char \<Rightarrow> bool" where
  \<comment> \<open>\<open>\w\<close>, that is \<open>[A-Za-z0-9_]\<close>\<close>
  "isWordChar c = (let n = (of_char c :: nat) in
     (65 \<le> n \<and> n \<le> 90) \<or> (97 \<le> n \<and> n \<le> 122) \<or> (48 \<le> n \<and> n \<le> 57) \<or> n = 95)"

definition isTagChar :: "char \<Rightarrow> bool" where
  \<comment> \<open>\<open>[\w-]\<close>\<close>
  "isTagChar c = (isWordChar c \<or> c = CHR ''-'')"

definition isSpace :: "char \<Rightarrow> bool" where
  \<comment> \<open>\<open>\s\<close>: tab, line feed, vertical tab, form feed, carriage return, space\<close>
  "isSpace c = (let n = (of_char c :: nat) in (9 \<le> n \<and> n \<le> 13) \<or> n = 32)"

definition isLineTerminator :: "char \<Rightarrow> bool" where
  \<comment> \<open>what \<open>.\<close> does not match\<close>
  "isLineTerminator c = (c = CHR 0x0A \<or> c = CHR 0x0D)"

definition toLowerChar :: "char \<Rightarrow> char" where
  "toLowerChar c = (if isUpper c then char_of ((of_char c :: nat) + 32) else c)"

definition toLowerCase :: "string \<Rightarrow> string" where
  "toLowerCase s = map toLowerChar s"

definition includes_str :: "string \<Rightarrow> string \<Rightarrow> bool" where
  \<comment> \<open>\<open>s.includes(t)\<close>: \<open>t\<close> occurs in \<open>s\<close> as a contiguous substring\<close>
  "includes_str s t = sublist t s"

definition startsWith :: "string \<Rightarrow> string \<Rightarrow> bool" where
  "startsWith s p = prefix p s"

definition trim :: "string \<Rightarrow> string" where
  "trim s = rev (dropWhile isSpace (rev (dropWhile isSpace s)))"

fun split_str :: "char \<Rightarrow> string \<Rightarrow> string list" where
  \<comment> \<open>\<open>s.split(sep)\<close> for a separator of one character; the result is never empty\<close>
  "split_str sep [] = [[]]"
| "split_str sep (c # cs) =
     (if c = sep then [] # split_str sep cs
      else (case split_str sep cs of
              [] \<Rightarrow> [[c]]
            | l # ls \<Rightarrow> (c # l) # ls))"

subsection \<open>Matching at a position, and the global scan\<close>

text \<open>
  A regular expression of the source is modelled by what it does at the start of the
  remaining text: it fails, or it matches and gives the text of its capture group and the
  length of the whole match. The scan of a regular expression with the \<open>g\<close> flag tries
  every position from left to right; after a match it goes on behind the match (one
  character further when the match is empty).
\<close>

type_synonym matcher = "string \<Rightarrow> (string \<times> nat) option"

function match_all :: "matcher \<Rightarrow> string \<Rightarrow> string list" where
  "match_all m [] = []"
| "match_all m (c # cs) =
     (case m (c # cs) of
        None \<Rightarrow> match_all m cs
      | Some (cap, n) \<Rightarrow>
          take n (c # cs) # (if n = 0 then match_all m cs else match_all m (drop n (c # cs))))"
  by pat_completeness auto
termination
  by (relation "measure (\<lambda>(m, s). length s)") auto

definition match_g :: "matcher \<Rightarrow> string \<Rightarrow> string list option" where
  \<comment> \<open>\<open>s.match(re)\<close> with the \<open>g\<close> flag: the matched texts, or \<open>null\<close> when there is none\<close>
  "match_g m s = (let ms = match_all m s in if ms = [] then None else Some ms)"

function replace_g :: "matcher \<Rightarrow> (string \<Rightarrow> string) \<Rightarrow> string \<Rightarrow> string" where
  \<comment> \<open>\<open>s.replace(re, r)\<close> with the \<open>g\<close> flag; \<open>r cap\<close> is the replacement with \<open>$1 = cap\<close>\<close>
  "replace_g m r [] = []"
| "replace_g m r (c # cs) =
     (case m (c # cs) of
        None \<Rightarrow> c # replace_g m r cs
      | Some (cap, n) \<Rightarrow>
          (if n = 0 then r cap @ c # replace_g m r cs
           else r cap @ replace_g m r (drop n (c # cs))))"
  by pat_completeness auto
termination
  by (relation "measure (\<lambda>(m, r, s). length s)") auto

definition tagRegex :: matcher where
  \<comment> \<open>\<open>#([\w-]+)\<close>: a \<open>#\<close> and the longest non-empty run of tag characters behind it\<close>
  "tagRegex s =
     (case s of
        [] \<Rightarrow> None
      | c # cs \<Rightarrow>
          (if c = CHR ''#'' \<and> takeWhile isTagChar cs \<noteq> []
           then Some (takeWhile isTagChar cs, Suc (length (takeWhile isTagChar cs)))
           else None))"

fun lazy_until :: "string \<Rightarrow> string \<Rightarrow> (string \<times> nat) option" where
  \<comment> \<open>\<open>(.*?)d\<close>: the shortest run of characters other than line terminators that is
      followed by \<open>d\<close>; the result is the run and the length of run and \<open>d\<close>\<close>
  "lazy_until d s =
     (if prefix d s then Some ([], length d)
      else (case s of
              [] \<Rightarrow> None
            | c # cs \<Rightarrow>
                (if isLineTerminator c then None
                 else (case lazy_until d cs of
                         None \<Rightarrow> None
                       | Some (cap, n) \<Rightarrow> Some (c # cap, Suc n)))))"

definition delimited :: "string \<Rightarrow> matcher" where
  \<comment> \<open>\<open>d(.*?)d\<close> for a literal delimiter \<open>d\<close>\<close>
  "delimited d s =
     (if prefix d s
      then (case lazy_until d (drop (length d) s) of
              None \<Rightarrow> None
            | Some (cap, n) \<Rightarrow> Some (cap, length d + n))
      else None)"

section \<open>Tag extraction\<close>

definition extractTags :: "string \<Rightarrow> string list" where
  "extractTags content =
     (case match_g tagRegex content of
        None \<Rightarrow> []
      | Some matches \<Rightarrow> map (\<lambda>tag. toLowerCase (drop 1 tag)) matches)"

section \<open>Notes\<close>

type_synonym date = nat
  \<comment> \<open>a \<open>Date\<close>, as its number of milliseconds since the epoch\<close>

record Note =
  id' :: string
  title :: string
  content :: string
  tags :: "string list"
  createdAt :: date
  updatedAt :: date
  isStarred :: bool
  isArchived :: bool

text \<open>\<open>Partial<Note>\<close>: every field of a note may be given or left out.\<close>

record Partial_Note =
  id_opt :: "string option"
  title_opt :: "string option"
  content_opt :: "string option"
  tags_opt :: "string list option"
  createdAt_opt :: "date option"
  updatedAt_opt :: "date option"
  isStarred_opt :: "bool option"
  isArchived_opt :: "bool option"

definition no_updates :: Partial_Note where
  "no_updates = \<lparr>id_opt = None, title_opt = None, content_opt = None, tags_opt = None,
     createdAt_opt = None, updatedAt_opt = None, isStarred_opt = None, isArchived_opt = None\<rparr>"

definition or_else :: "'a option \<Rightarrow> 'a \<Rightarrow> 'a" where
  "or_else x d = (case x of None \<Rightarrow> d | Some v \<Rightarrow> v)"

definition spread :: "Note \<Rightarrow> Partial_Note \<Rightarrow> date \<Rightarrow> Note" where
  \<comment> \<open>\<open>{ ...note, ...updates, updatedAt: new Date() }\<close>\<close>
  "spread note updates now =
     \<lparr>id' = or_else (id_opt updates) (id' note),
      title = or_else (title_opt updates) (title note),
      content = or_else (content_opt updates) (content note),
      tags = or_else (tags_opt updates) (tags note),
      createdAt = or_else (createdAt_opt updates) (createdAt note),
      updatedAt = now,
      isStarred = or_else (isStarred_opt updates) (isStarred note),
      isArchived = or_else (isArchived_opt updates) (isArchived note)\<rparr>"

subsection \<open>The welcome note\<close>

definition newline :: char where
  "newline = CHR 0x0A"

definition join_lines :: "string list \<Rightarrow> string" where
  \<comment> \<open>the lines of a template literal, a line feed between two of them\<close>
  "join_lines ls = (case ls of [] \<Rightarrow> [] | l # rest \<Rightarrow> l @ concat (map (\<lambda>x. newline # x) rest))"

text \<open>The four pictographs of the welcome text, as their UTF-8 bytes.\<close>

definition emoji_bear :: string where
  "emoji_bear = [CHR 0xF0, CHR 0x9F, CHR 0x90, CHR 0xBB]"

definition emoji_star :: string where
  "emoji_star = [CHR 0xE2, CHR 0xAD, CHR 0x90]"

definition emoji_package :: string where
  "emoji_package = [CHR 0xF0, CHR 0x9F, CHR 0x93, CHR 0xA6]"

definition emoji_memo :: string where
  "emoji_memo = [CHR 0xF0, CHR 0x9F, CHR 0x93, CHR 0x9D]"

definition welcomeContent :: string where
  "welcomeContent = join_lines
     [''# Welcome to Bear Notes! '' @ emoji_bear,
      '''',
      ''This is your personal note hosting platform inspired by Bear.'',
      '''',
      ''## Features'',
      ''- **Markdown support** for beautiful formatting'',
      ''- **Tag organization** using #hashtags'',
      ''- **Quick search** to find anything instantly'',
      ''- **Star important notes** '' @ emoji_star,
      ''- **Archive old notes** '' @ emoji_package,
      '''',
      ''## Getting Started'',
      ''1. Create a new note with the + button'',
      ''2. Use #tags to organize your thoughts'',
      ''3. Star important notes for quick access'',
      ''4. Use the search to find anything instantly'',
      '''',
      ''## Markdown Examples'',
      ''You can use **bold**, *italic*, and `code` formatting.'',
      '''',
      ''### Lists'',
      ''- Item one'',
      ''- Item two'',
      ''- Item three'',
      '''',
      ''### Tags'',
      ''Add tags anywhere in your notes: #personal #work #ideas'',
      '''',
      ''Happy note-taking! '' @ emoji_memo,
      '''',
      ''#welcome #getting-started'']"

definition welcomeNote :: "date \<Rightarrow> Note" where
  "welcomeNote now =
     \<lparr>id' = ''welcome'',
      title = ''Welcome to Bear Notes'',
      content = welcomeContent,
      tags = [''welcome'', ''getting-started''],
      createdAt = now,
      updatedAt = now,
      isStarred = True,
      isArchived = False\<rparr>"

section \<open>The stored text and JSON\<close>

text \<open>
  \<open>JSON.parse\<close>, \<open>JSON.stringify\<close> and \<open>localStorage\<close> belong to the platform. A stored
  text is represented by what \<open>JSON.parse\<close> makes of it: the empty text, a text that is
  not JSON (\<open>JSON.parse\<close> throws a \<open>SyntaxError\<close>), or the JSON text of a value. A date
  is written by \<open>JSON.stringify\<close> as its ISO string, and \<open>new Date\<close> reads that string
  back to the same instant; \<open>JIsoDate t\<close> stands for the ISO string of the instant \<open>t\<close>.
\<close>

datatype json =
    JNull
  | JBool bool
  | JNum int
  | JStr string
  | JIsoDate date
  | JArr "json list"
  | JObj "(string \<times> json) list"

datatype stored_text = Text_empty | Text_malformed | Text_json json

datatype js_error = SyntaxError | TypeError

definition note_to_json :: "Note \<Rightarrow> json" where
  "note_to_json n = JObj
     [(''id'', JStr (id' n)),
      (''title'', JStr (title n)),
      (''content'', JStr (content n)),
      (''tags'', JArr (map JStr (tags n))),
      (''createdAt'', JIsoDate (createdAt n)),
      (''updatedAt'', JIsoDate (updatedAt n)),
      (''isStarred'', JBool (isStarred n)),
      (''isArchived'', JBool (isArchived n))]"

definition stringify :: "Note list \<Rightarrow> stored_text" where
  \<comment> \<open>\<open>JSON.stringify(notes)\<close>\<close>
  "stringify ns = Text_json (JArr (map note_to_json ns))"

definition JSON_parse :: "stored_text \<Rightarrow> js_error + json" where
  \<comment> \<open>the empty text is not JSON either\<close>
  "JSON_parse t = (case t of Text_json v \<Rightarrow> Inr v | _ \<Rightarrow> Inl SyntaxError)"

section \<open>The state of the component and its handlers\<close>

text \<open>
  The state is what the \<open>useState\<close> hooks hold, and the value of the store. A handler takes
  the reading of the clock as its argument \<open>now\<close>: the calls of \<open>new Date()\<close> and
  \<open>Date.now()\<close> within one run of a handler are taken to read the same millisecond.
\<close>

record app_state =
  notes' :: "Note list"
  selectedNote :: "Note option"
  searchTerm :: string
  selectedTag :: string
  sidebarOpen :: bool
  isEditing :: bool
  editContent :: string
  localStorage :: "stored_text option"
    \<comment> \<open>what \<open>localStorage\<close> holds under the key \<open>bear-notes\<close>\<close>

definition useState_initial :: "stored_text option \<Rightarrow> app_state" where
  "useState_initial stored =
     \<lparr>notes' = [], selectedNote = None, searchTerm = '''', selectedTag = ''all'',
      sidebarOpen = True, isEditing = False, editContent = '''', localStorage = stored\<rparr>"

subsection \<open>Saving to and loading from the store\<close>

definition saveNotes :: "app_state \<Rightarrow> app_state" where
  \<comment> \<open>the effect on \<open>[notes]\<close>\<close>
  "saveNotes st =
     (if length (notes' st) > 0 then st\<lparr>localStorage := Some (stringify (notes' st))\<rparr> else st)"

definition get_str :: "json option \<Rightarrow> string option" where
  "get_str v = (case v of Some (JStr s) \<Rightarrow> Some s | _ \<Rightarrow> None)"

definition get_bool :: "json option \<Rightarrow> bool option" where
  "get_bool v = (case v of Some (JBool b) \<Rightarrow> Some b | _ \<Rightarrow> None)"

definition new_Date :: "json option \<Rightarrow> date option" where
  \<comment> \<open>\<open>new Date(v)\<close> for the ISO string of an instant\<close>
  "new_Date v = (case v of Some (JIsoDate t) \<Rightarrow> Some t | _ \<Rightarrow> None)"

fun get_strs :: "json list \<Rightarrow> string list option" where
  "get_strs [] = Some []"
| "get_strs (v # vs) =
     (case (v, get_strs vs) of
        (JStr s, Some ss) \<Rightarrow> Some (s # ss)
      | _ \<Rightarrow> None)"

definition get_tags :: "json option \<Rightarrow> string list option" where
  "get_tags v = (case v of Some (JArr vs) \<Rightarrow> get_strs vs | _ \<Rightarrow> None)"

definition revive :: "json \<Rightarrow> Note option" where
  \<comment> \<open>\<open>{ ...note, createdAt: new Date(note.createdAt), updatedAt: new Date(note.updatedAt) }\<close>
      as a note, when the parsed value has the fields of one\<close>
  "revive v =
     (case v of
        JObj fs \<Rightarrow>
          Option.bind (get_str (map_of fs ''id'')) (\<lambda>i.
          Option.bind (get_str (map_of fs ''title'')) (\<lambda>t.
          Option.bind (get_str (map_of fs ''content'')) (\<lambda>c.
          Option.bind (get_tags (map_of fs ''tags'')) (\<lambda>ts.
          Option.bind (new_Date (map_of fs ''createdAt'')) (\<lambda>ca.
          Option.bind (new_Date (map_of fs ''updatedAt'')) (\<lambda>ua.
          Option.bind (get_bool (map_of fs ''isStarred'')) (\<lambda>s.
          Option.bind (get_bool (map_of fs ''isArchived'')) (\<lambda>a.
            Some \<lparr>id' = i, title = t, content = c, tags = ts, createdAt = ca,
                  updatedAt = ua, isStarred = s, isArchived = a\<rparr>))))))))
      | _ \<Rightarrow> None)"

fun revive_all :: "json list \<Rightarrow> Note list option" where
  "revive_all [] = Some []"
| "revive_all (v # vs) =
     (case (revive v, revive_all vs) of
        (Some n, Some ns) \<Rightarrow> Some (n # ns)
      | _ \<Rightarrow> None)"

text \<open>
  The load effect ends in one of three ways: an error is thrown and nothing catches it;
  the state is set; or the parsed array holds values that are not serialized notes, which
  \<open>setNotes\<close> stores as they are, outside of the type \<open>Note\<close>.
\<close>

datatype load_result = Threw js_error | Loaded app_state | Loaded_untyped

definition seedWelcome :: "date \<Rightarrow> app_state \<Rightarrow> app_state" where
  \<comment> \<open>the \<open>else\<close> branch of the load effect\<close>
  "seedWelcome now st = st\<lparr>notes' := [welcomeNote now], selectedNote := Some (welcomeNote now)\<rparr>"

definition loadNotes :: "date \<Rightarrow> app_state \<Rightarrow> load_result" where
  \<comment> \<open>the effect on \<open>[]\<close>; the empty text is falsy, as \<open>null\<close> is; \<open>.map\<close> exists on an
      array only, and reading a field of \<open>null\<close> throws\<close>
  "loadNotes now st =
     (case localStorage st of
        None \<Rightarrow> Loaded (seedWelcome now st)
      | Some savedNotes \<Rightarrow>
          (if savedNotes = Text_empty then Loaded (seedWelcome now st)
           else (case JSON_parse savedNotes of
                   Inl e \<Rightarrow> Threw e
                 | Inr (JArr vs) \<Rightarrow>
                     (if JNull \<in> set vs then Threw TypeError
                      else (case revive_all vs of
                              None \<Rightarrow> Loaded_untyped
                            | Some parsedNotes \<Rightarrow> Loaded (st\<lparr>notes' := parsedNotes\<rparr>)))
                 | Inr _ \<Rightarrow> Threw TypeError)))"

definition mount :: "date \<Rightarrow> stored_text option \<Rightarrow> load_result" where
  \<comment> \<open>the first render: the initial state, the load effect, then the save effect\<close>
  "mount now stored =
     (case loadNotes now (useState_initial stored) of
        Loaded st \<Rightarrow> Loaded (saveNotes st)
      | r \<Rightarrow> r)"

subsection \<open>Handlers\<close>

definition digit_char :: "nat \<Rightarrow> char" where
  "digit_char d = char_of (48 + d)"

function toString :: "nat \<Rightarrow> string" where
  \<comment> \<open>\<open>toString()\<close> of a non-negative integer: its decimal digits\<close>
  "toString n = (if n < 10 then [digit_char n] else toString (n div 10) @ [digit_char (n mod 10)])"
  by pat_completeness auto
termination
  by (relation "measure (\<lambda>n. n)") auto

definition createNote :: "date \<Rightarrow> app_state \<Rightarrow> app_state" where
  "createNote now st =
     (let newNote = \<lparr>id' = toString now, title = ''Untitled Note'', content = '''', tags = [],
                      createdAt = now, updatedAt = now, isStarred = False, isArchived = False\<rparr>
      in st\<lparr>notes' := newNote # notes' st, selectedNote := Some newNote,
             isEditing := True, editContent := ''''\<rparr>)"

definition updateNote :: "date \<Rightarrow> string \<Rightarrow> Partial_Note \<Rightarrow> app_state \<Rightarrow> app_state" where
  "updateNote now noteId updates st =
     st\<lparr>notes' := map (\<lambda>note. if id' note = noteId then spread note updates now else note) (notes' st),
        selectedNote :=
          (case selectedNote st of
             None \<Rightarrow> None
           | Some sel \<Rightarrow> if id' sel = noteId then Some (spread sel updates now) else Some sel)\<rparr>"

definition strip_hash :: "string \<Rightarrow> string" where
  \<comment> \<open>\<open>replace(/^#\s*/, "")\<close>\<close>
  "strip_hash s =
     (case s of
        [] \<Rightarrow> []
      | c # cs \<Rightarrow> if c = CHR ''#'' then dropWhile isSpace cs else s)"

definition first_line :: "string \<Rightarrow> string" where
  \<comment> \<open>\<open>split("\n")[0]\<close>, which always exists\<close>
  "first_line s = (case split_str newline s of [] \<Rightarrow> [] | l # ls \<Rightarrow> l)"

definition saveNote :: "date \<Rightarrow> app_state \<Rightarrow> app_state" where
  "saveNote now st =
     (case selectedNote st of
        None \<Rightarrow> st
      | Some sel \<Rightarrow>
          (let tags' = extractTags (editContent st);
               title' = (let t = strip_hash (first_line (editContent st))
                         in if t = [] then ''Untitled Note'' else t)
           in (updateNote now (id' sel)
                 (no_updates\<lparr>title_opt := Some title', content_opt := Some (editContent st),
                    tags_opt := Some tags'\<rparr>) st)
              \<lparr>isEditing := False\<rparr>))"

definition deleteNote :: "string \<Rightarrow> app_state \<Rightarrow> app_state" where
  "deleteNote noteId st =
     st\<lparr>notes' := filter (\<lambda>note. id' note \<noteq> noteId) (notes' st),
        selectedNote :=
          (case selectedNote st of
             None \<Rightarrow> None
           | Some sel \<Rightarrow> if id' sel = noteId then None else Some sel)\<rparr>"

definition toggleStar :: "date \<Rightarrow> string \<Rightarrow> app_state \<Rightarrow> app_state" where
  \<comment> \<open>\<open>!undefined\<close> is \<open>true\<close>\<close>
  "toggleStar now noteId st =
     updateNote now noteId
       (no_updates\<lparr>isStarred_opt :=
          Some (case find (\<lambda>n. id' n = noteId) (notes' st) of
                  None \<Rightarrow> True
                | Some n \<Rightarrow> \<not> isStarred n)\<rparr>) st"

definition toggleArchive :: "date \<Rightarrow> string \<Rightarrow> app_state \<Rightarrow> app_state" where
  "toggleArchive now noteId st =
     updateNote now noteId
       (no_updates\<lparr>isArchived_opt :=
          Some (case find (\<lambda>n. id' n = noteId) (notes' st) of
                  None \<Rightarrow> True
                | Some n \<Rightarrow> \<not> isArchived n)\<rparr>) st"

definition startEditing :: "app_state \<Rightarrow> app_state" where
  "startEditing st =
     (case selectedNote st of
        None \<Rightarrow> st
      | Some sel \<Rightarrow> st\<lparr>editContent := content sel, isEditing := True\<rparr>)"

definition cancelEditing :: "app_state \<Rightarrow> app_state" where
  "cancelEditing st = st\<lparr>isEditing := False, editContent := ''''\<rparr>"

section \<open>Filtering\<close>

definition filterNote :: "string \<Rightarrow> string \<Rightarrow> Note \<Rightarrow> bool" where
  \<comment> \<open>the callback of \<open>notes.filter\<close>; a non-empty string is truthy\<close>
  "filterNote selTag term note =
     (if selTag = ''starred'' \<and> \<not> isStarred note then False
      else if selTag = ''archived'' \<and> \<not> isArchived note then False
      else if selTag = ''untagged'' \<and> length (tags note) > 0 then False
      else if (selTag \<noteq> ''all'' \<and> selTag \<noteq> ''starred'' \<and> selTag \<noteq> ''archived''
               \<and> selTag \<noteq> ''untagged'') \<and> \<not> (selTag \<in> set (tags note)) then False
      else if term \<noteq> '''' then
        (includes_str (toLowerCase (title note)) (toLowerCase term)
         \<or> includes_str (toLowerCase (content note)) (toLowerCase term)
         \<or> list_ex (\<lambda>tag. includes_str (toLowerCase tag) (toLowerCase term)) (tags note))
      else (\<not> isArchived note \<or> selTag = ''archived''))"

definition filter_notes :: "Note list \<Rightarrow> string \<Rightarrow> string \<Rightarrow> Note list" where
  "filter_notes ns selTag term = filter (filterNote selTag term) ns"

definition filteredNotes :: "app_state \<Rightarrow> Note list" where
  "filteredNotes st = filter_notes (notes' st) (selectedTag st) (searchTerm st)"

definition allTags :: "app_state \<Rightarrow> string set" where
  \<comment> \<open>the tags that have a button in the sidebar\<close>
  "allTags st = set (concat (map tags (notes' st)))"

section \<open>Rendering\<close>

text \<open>
  The elements \<open>renderContent\<close> returns: \<open>h1\<close>, \<open>h2\<close>, \<open>h3\<close> and \<open>li\<close> with their text
  child, \<open>br\<close>, and \<open>p\<close> with the markup given to \<open>dangerouslySetInnerHTML\<close>.
\<close>

datatype element = H1 string | H2 string | H3 string | LI string | BR | Para string

definition formatLine :: "string \<Rightarrow> string" where
  \<comment> \<open>bold, italic, code, tags: four replacements, each on the result of the one before\<close>
  \<open>formatLine line =
     (let formattedLine = line;
          formattedLine = replace_g (delimited ''**'')
            (\<lambda>cap. ''<strong>'' @ cap @ ''</strong>'') formattedLine;
          formattedLine = replace_g (delimited ''*'')
            (\<lambda>cap. ''<em>'' @ cap @ ''</em>'') formattedLine;
          formattedLine = replace_g (delimited ''`'')
            (\<lambda>cap. ''<code class="bg-gray-100 px-1 py-0.5 rounded text-sm">'' @ cap @ ''</code>'')
            formattedLine;
          formattedLine = replace_g tagRegex
            (\<lambda>cap. ''<span class="text-blue-600 font-medium">#'' @ cap @ ''</span>'')
            formattedLine
      in formattedLine)\<close>

definition renderLine :: "string \<Rightarrow> element" where
  "renderLine line =
     (if startsWith line ''# '' then H1 (drop 2 line)
      else if startsWith line ''## '' then H2 (drop 3 line)
      else if startsWith line ''### '' then H3 (drop 4 line)
      else if startsWith line ''- '' then LI (drop 2 line)
      else if trim line = '''' then BR
      else Para (formatLine line))"

definition renderContent :: "string \<Rightarrow> element list" where
  "renderContent text = map renderLine (split_str newline text)"

section \<open>User actions\<close>

text \<open>
  What the user can do with the rendered component. A date is the reading of the clock
  when the handler runs. The buttons of a note are there only when a note is selected,
  Save, Cancel and the text area only while editing, and a tag has a button in the
  sidebar only when a note carries it. The save effect runs after each handler that
  sets \<open>notes\<close>.
\<close>

datatype event =
    Click_new_note date
  | Click_note nat
  | Click_star date
  | Click_archive date
  | Click_edit
  | Click_cancel
  | Click_save date
  | Click_delete
  | Type_content string
  | Type_search string
  | Click_tag string
  | Click_sidebar bool

fun step :: "event \<Rightarrow> app_state \<Rightarrow> app_state" where
  "step (Click_new_note now) st = saveNotes (createNote now st)"
| "step (Click_note k) st =
     (if k < length (filteredNotes st)
      then st\<lparr>selectedNote := Some (filteredNotes st ! k), isEditing := False\<rparr>
      else st)"
| "step (Click_star now) st =
     (case selectedNote st of
        None \<Rightarrow> st
      | Some sel \<Rightarrow> saveNotes (toggleStar now (id' sel) st))"
| "step (Click_archive now) st =
     (case selectedNote st of
        None \<Rightarrow> st
      | Some sel \<Rightarrow> saveNotes (toggleArchive now (id' sel) st))"
| "step Click_edit st =
     (if selectedNote st \<noteq> None \<and> \<not> isEditing st then startEditing st else st)"
| "step Click_cancel st =
     (if selectedNote st \<noteq> None \<and> isEditing st then cancelEditing st else st)"
| "step (Click_save now) st =
     (if selectedNote st \<noteq> None \<and> isEditing st then saveNotes (saveNote now st) else st)"
| "step Click_delete st =
     (case selectedNote st of
        None \<Rightarrow> st
      | Some sel \<Rightarrow> saveNotes (deleteNote (id' sel) st))"
| "step (Type_content text) st =
     (if selectedNote st \<noteq> None \<and> isEditing st then st\<lparr>editContent := text\<rparr> else st)"
| "step (Type_search text) st = st\<lparr>searchTerm := text\<rparr>"
| "step (Click_tag tag) st =
     (if tag \<in> {''all'', ''starred'', ''untagged'', ''archived''} \<union> allTags st
      then st\<lparr>selectedTag := tag\<rparr>
      else st)"
| "step (Click_sidebar b) st = st\<lparr>sidebarOpen := b\<rparr>"

text \<open>
  The states the application reaches: it is opened on an empty store, the user acts, the
  page is opened again on what the store holds. \<open>ok\<close> says which actions are considered
  in which state.
\<close>

inductive reachable :: "(event \<Rightarrow> app_state \<Rightarrow> bool) \<Rightarrow> app_state \<Rightarrow> bool"
  for ok :: "event \<Rightarrow> app_state \<Rightarrow> bool" where
  first_run: "mount now None = Loaded st \<Longrightarrow> reachable ok st"
| action: "reachable ok st \<Longrightarrow> ok ev st \<Longrightarrow> reachable ok (step ev st)"
| reopened: "reachable ok st \<Longrightarrow> mount now (localStorage st) = Loaded st' \<Longrightarrow> reachable ok st'"

definition any_action :: "event \<Rightarrow> app_state \<Rightarrow> bool" where
  "any_action ev st = True"

declare toString.simps [simp del]

section \<open>Example inputs\<close>


definition two_notes :: "Note list" where
  "two_notes =
     [\<lparr>id' = ''a'', title = ''A'', content = ''A'', tags = [], createdAt = 1, updatedAt = 1,
       isStarred = False, isArchived = False\<rparr>,
      \<lparr>id' = ''b'', title = ''B'', content = ''B #x'', tags = [''x''], createdAt = 2,
       updatedAt = 3, isStarred = False, isArchived = False\<rparr>]"

definition two_notes_state :: app_state where
  "two_notes_state = (useState_initial None)\<lparr>notes' := two_notes\<rparr>"

section \<open>The tag tokens of a text, as the specification words them\<close>

text \<open>
  Following the specification of the tag extractor: at every position of the text where a
  \<open>#\<close> is followed by one or more word characters or hyphens, the token is the longest
  such run, without the \<open>#\<close>. This definition reads every position; the scan of the
  source goes on behind each match.
\<close>

fun hash_tokens :: "string \<Rightarrow> string list" where
  "hash_tokens [] = []"
| "hash_tokens (c # cs) =
     (if c = CHR ''#'' \<and> takeWhile isTagChar cs \<noteq> []
      then takeWhile isTagChar cs # hash_tokens cs
      else hash_tokens cs)"

section \<open>States and conditions the theorems speak of\<close>

definition first_run_state :: "date \<Rightarrow> app_state" where
  \<comment> \<open>the state after the first render on an empty store, at the clock reading \<open>now\<close>\<close>
  "first_run_state now =
     saveNotes (seedWelcome now (useState_initial None))"

definition tags_of_content :: "Note \<Rightarrow> bool" where
  \<comment> \<open>the tags of the note are those the extractor gives for its content\<close>
  "tags_of_content n = (tags n = extractTags (content n))"

definition seeded_tags :: "Note \<Rightarrow> bool" where
  \<comment> \<open>the note has the text and the tags the welcome note is seeded with\<close>
  "seeded_tags n = (content n = welcomeContent \<and> tags n = [''welcome'', ''getting-started''])"

definition fresh_id :: "event \<Rightarrow> app_state \<Rightarrow> bool" where
  \<comment> \<open>a note is created only at a clock reading that is not yet the id of a note\<close>
  "fresh_id ev st =
     (case ev of
        Click_new_note now \<Rightarrow> toString now \<notin> id' ` set (notes' st)
      | _ \<Rightarrow> True)"

definition caller_updates :: "Partial_Note \<Rightarrow> bool" where
  \<comment> \<open>what \<open>saveNote\<close>, \<open>toggleStar\<close> and \<open>toggleArchive\<close> pass to \<open>updateNote\<close>: never an id
      or a creation date, and a content only together with its tags\<close>
  "caller_updates u =
     (id_opt u = None \<and> createdAt_opt u = None
      \<and> (case content_opt u of
            None \<Rightarrow> tags_opt u = None
          | Some c \<Rightarrow> tags_opt u = Some (extractTags c)))"

section \<open>The filter\<close>



lemma filterNote_archived_empty: "filterNote ''archived'' '''' n = isArchived n"
  by (simp add: filterNote_def)



text \<open>
  Claim C8. Whatever the selector and the search term, the filtered notes are a
  subsequence of the notes, in their order; under the selector \<open>archived\<close> and an empty
  search term they are exactly the archived notes.
\<close>

theorem filter_subsequence:
  "subseq (filter_notes ns selTag term) ns
   \<and> filter_notes ns ''archived'' '''' = filter isArchived ns"
proof -
  have "filterNote ''archived'' '''' = isArchived"
    by (rule ext) (rule filterNote_archived_empty)
  then show ?thesis
    by (simp add: filter_notes_def)
qed

section \<open>Updating a note\<close>


lemma updateNote_notes:
  "notes' (updateNote now noteId u st) =
     map (\<lambda>n. if id' n = noteId then spread n u now else n) (notes' st)"
  by (simp add: updateNote_def)





section \<open>Rendering a note\<close>











lemma split_str_length: "length (split_str sep s) = Suc (count_list s sep)"
  by (induction s) (auto split: list.splits)



section \<open>Tag extraction\<close>

lemma hash_not_tag_char: "\<not> isTagChar CHR ''#''"
  by (simp add: isTagChar_def isWordChar_def)

lemma hash_tokens_skip:
  "\<forall>c \<in> set run. isTagChar c \<Longrightarrow> hash_tokens (run @ rest) = hash_tokens rest"
proof (induction run)
  case Nil
  show ?case by simp
next
  case (Cons c run)
  then have "c \<noteq> CHR ''#''"
    using hash_not_tag_char by auto
  with Cons show ?case by simp
qed

lemma hash_tokens_behind_match:
  "hash_tokens cs = hash_tokens (dropWhile isTagChar cs)"
proof -
  have "hash_tokens (takeWhile isTagChar cs @ dropWhile isTagChar cs)
      = hash_tokens (dropWhile isTagChar cs)"
    by (rule hash_tokens_skip) (auto dest: set_takeWhileD)
  then show ?thesis by simp
qed

lemma tagRegex_Some:
  "tagRegex (c # cs) = Some (cap, n) \<Longrightarrow>
     c = CHR ''#'' \<and> cap = takeWhile isTagChar cs \<and> cap \<noteq> [] \<and> n = Suc (length cap)"
  by (auto simp: tagRegex_def split: if_splits)

lemma tagRegex_None:
  "tagRegex (c # cs) = None \<Longrightarrow> \<not> (c = CHR ''#'' \<and> takeWhile isTagChar cs \<noteq> [])"
  by (auto simp: tagRegex_def split: if_splits)

lemma drop_length_takeWhile: "drop (length (takeWhile P xs)) xs = dropWhile P xs"
  by (induction xs) auto

lemma take_length_takeWhile: "take (length (takeWhile P xs)) xs = takeWhile P xs"
  by (induction xs) auto

lemma match_all_tagRegex: "map (drop 1) (match_all tagRegex s) = hash_tokens s"
proof (induction s rule: length_induct)
  case (1 s)
  show ?case
  proof (cases s)
    case Nil
    then show ?thesis by simp
  next
    case (Cons c cs)
    show ?thesis
    proof (cases "tagRegex (c # cs)")
      case None
      from tagRegex_None [OF None] have "hash_tokens (c # cs) = hash_tokens cs"
        by auto
      moreover from 1 Cons have "map (drop 1) (match_all tagRegex cs) = hash_tokens cs"
        by simp
      ultimately show ?thesis
        using None Cons by simp
    next
      case (Some r)
      obtain cap n where r: "r = (cap, n)"
        by (cases r)
      from tagRegex_Some [OF Some [unfolded r]]
      have c: "c = CHR ''#''" and cap: "cap = takeWhile isTagChar cs" and ne: "cap \<noteq> []"
        and n: "n = Suc (length cap)"
        by blast+
      have rest: "drop n (c # cs) = dropWhile isTagChar cs"
        by (simp add: n cap drop_length_takeWhile)
      have matched: "take n (c # cs) = c # cap"
        by (simp add: n cap take_length_takeWhile)
      have "length (dropWhile isTagChar cs) < length s"
        using Cons by (simp add: length_dropWhile_le less_Suc_eq_le)
      with 1 have ih: "map (drop 1) (match_all tagRegex (dropWhile isTagChar cs))
          = hash_tokens (dropWhile isTagChar cs)"
        by blast
      have npos: "n \<noteq> 0"
        using n by simp
      have "match_all tagRegex (c # cs) = take n (c # cs) # match_all tagRegex (drop n (c # cs))"
        using Some r npos by simp
      then have "map (drop 1) (match_all tagRegex (c # cs))
          = cap # hash_tokens (dropWhile isTagChar cs)"
        unfolding rest matched using ih by simp
      also have "\<dots> = cap # hash_tokens cs"
        using hash_tokens_behind_match [of cs] by simp
      also have "\<dots> = hash_tokens (c # cs)"
        using c cap ne by simp
      finally show ?thesis
        using Cons by simp
    qed
  qed
qed

lemma hash_tokens_chars:
  "t \<in> set (hash_tokens s) \<Longrightarrow> t \<noteq> [] \<and> (\<forall>c \<in> set t. isTagChar c)"
  by (induction s) (auto split: if_splits dest: set_takeWhileD)

lemma toLowerChar_tag:
  assumes "isTagChar c"
  shows "isTagChar (toLowerChar c) \<and> \<not> isUpper (toLowerChar c)"
proof (cases "isUpper c")
  case True
  then have "of_char (toLowerChar c) = (of_char c :: nat) + 32"
    by (simp add: toLowerChar_def isUpper_def Let_def)
  with True show ?thesis
    by (simp add: isUpper_def isTagChar_def isWordChar_def Let_def)
next
  case False
  with assms show ?thesis
    by (simp add: toLowerChar_def)
qed

lemma extractTags_match_all:
  "extractTags s = map (\<lambda>tag. toLowerCase (drop 1 tag)) (match_all tagRegex s)"
  by (simp add: extractTags_def match_g_def Let_def)

text \<open>
  Claim C2, as amended. \<open>extractTags\<close> returns, in the order of the text and once for each
  occurrence, the tokens \<open>#[A-Za-z0-9_-]+\<close> of the text without their \<open>#\<close> and in lower
  case; each tag is a non-empty run of tag characters with no upper-case letter.
\<close>

theorem extractTags_tokens:
  "extractTags text = map toLowerCase (hash_tokens text)
   \<and> (\<forall>t \<in> set (extractTags text). t \<noteq> [] \<and> (\<forall>c \<in> set t. isTagChar c \<and> \<not> isUpper c))"
proof
  have "extractTags text = map toLowerCase (map (drop 1) (match_all tagRegex text))"
    by (simp add: extractTags_match_all)
  then show eq: "extractTags text = map toLowerCase (hash_tokens text)"
    by (simp only: match_all_tagRegex)
  show "\<forall>t \<in> set (extractTags text). t \<noteq> [] \<and> (\<forall>c \<in> set t. isTagChar c \<and> \<not> isUpper c)"
  proof
    fix t assume "t \<in> set (extractTags text)"
    with eq obtain r where r: "r \<in> set (hash_tokens text)" and t: "t = toLowerCase r"
      by auto
    from hash_tokens_chars [OF r] have "r \<noteq> []" and "\<forall>c \<in> set r. isTagChar c"
      by simp_all
    then show "t \<noteq> [] \<and> (\<forall>c \<in> set t. isTagChar c \<and> \<not> isUpper c)"
      using toLowerChar_tag by (auto simp: t toLowerCase_def)
  qed
qed

theorem extractTags_tokens_witness:
  "extractTags ''# Hi #Foo-bar, ##x #a_1 #'' = [''foo-bar'', ''x'', ''a_1'']
   \<and> isTagChar CHR ''f'' \<and> \<not> isUpper CHR ''f''"
proof -
  have ev: "map toLowerCase (hash_tokens ''# Hi #Foo-bar, ##x #a_1 #'') = [''foo-bar'', ''x'', ''a_1'']"
    by code_simp
  note inst = extractTags_tokens [of "''# Hi #Foo-bar, ##x #a_1 #''", unfolded ev]
  from inst have eq: "extractTags ''# Hi #Foo-bar, ##x #a_1 #'' = [''foo-bar'', ''x'', ''a_1'']"
    by (rule conjunct1)
  from inst have "\<forall>t \<in> set (extractTags ''# Hi #Foo-bar, ##x #a_1 #'').
      t \<noteq> [] \<and> (\<forall>c \<in> set t. isTagChar c \<and> \<not> isUpper c)"
    by (rule conjunct2)
  then have "\<forall>c \<in> set ''foo-bar''. isTagChar c \<and> \<not> isUpper c"
    unfolding eq by simp
  then have "isTagChar CHR ''f'' \<and> \<not> isUpper CHR ''f''"
    by simp
  with eq show ?thesis
    by simp
qed

text \<open>The same tag twice in the text is twice in the result: nothing removes duplicates.\<close>

theorem extractTags_duplicates_counterexample:
  "extractTags ''#todo and #Todo'' = [''todo'', ''todo'']
   \<and> \<not> distinct (extractTags ''#todo and #Todo'')"
proof -
  have "extractTags ''#todo and #Todo'' = [''todo'', ''todo'']"
    by code_simp
  then show ?thesis by simp
qed

section \<open>The store and the reachable states\<close>

lemma get_strs_JStr: "get_strs (map JStr xs) = Some xs"
  by (induction xs) auto

lemma revive_note_to_json: "revive (note_to_json n) = Some n"
  by (cases n) (simp add: revive_def note_to_json_def get_str_def get_tags_def new_Date_def
      get_bool_def get_strs_JStr)

lemma revive_all_note_to_json: "revive_all (map note_to_json ns) = Some ns"
  by (induction ns) (auto simp: revive_note_to_json)

lemma JNull_not_note: "JNull \<notin> set (map note_to_json ns)"
  by (auto simp: note_to_json_def)

lemma stringify_inject: "stringify ns = stringify ms \<Longrightarrow> ns = ms"
proof -
  assume "stringify ns = stringify ms"
  then have "map note_to_json ns = map note_to_json ms"
    by (simp add: stringify_def)
  then have "revive_all (map note_to_json ns) = revive_all (map note_to_json ms)"
    by simp
  then show "ns = ms"
    by (simp add: revive_all_note_to_json)
qed

lemma mount_None: "mount now None = Loaded (first_run_state now)"
  by (simp add: mount_def loadNotes_def first_run_state_def useState_initial_def)


lemma mount_stringify:
  "mount now (Some (stringify ns)) =
     Loaded (saveNotes ((useState_initial (Some (stringify ns)))\<lparr>notes' := ns\<rparr>))"
proof -
  have "loadNotes now (useState_initial (Some (stringify ns)))
      = Loaded ((useState_initial (Some (stringify ns)))\<lparr>notes' := ns\<rparr>)"
    using JNull_not_note [of ns]
    by (simp add: loadNotes_def useState_initial_def stringify_def JSON_parse_def
        revive_all_note_to_json)
  then show ?thesis
    by (simp add: mount_def)
qed

lemma saveNotes_notes [simp]: "notes' (saveNotes st) = notes' st"
  by (simp add: saveNotes_def)

lemma saveNotes_store:
  "localStorage (saveNotes st) =
     (if notes' st \<noteq> [] then Some (stringify (notes' st)) else localStorage st)"
  by (simp add: saveNotes_def)

lemma handlers_store [simp]:
  "localStorage (createNote now st) = localStorage st"
  "localStorage (updateNote now noteId u st) = localStorage st"
  "localStorage (saveNote now st) = localStorage st"
  "localStorage (deleteNote noteId st) = localStorage st"
  "localStorage (toggleStar now noteId st) = localStorage st"
  "localStorage (toggleArchive now noteId st) = localStorage st"
  "localStorage (startEditing st) = localStorage st"
  "localStorage (cancelEditing st) = localStorage st"
  by (simp_all add: createNote_def updateNote_def saveNote_def deleteNote_def toggleStar_def
      toggleArchive_def startEditing_def cancelEditing_def Let_def split: option.splits)

lemma step_store:
  "localStorage (step ev st) = localStorage st
   \<or> localStorage (step ev st) = Some (stringify (notes' (step ev st)))"
proof (cases ev)
  case (Click_new_note now)
  then show ?thesis by (simp add: saveNotes_store)
next
  case (Click_star now)
  then show ?thesis by (simp add: saveNotes_store split: option.splits)
next
  case (Click_archive now)
  then show ?thesis by (simp add: saveNotes_store split: option.splits)
next
  case (Click_save now)
  then show ?thesis by (simp add: saveNotes_store)
next
  case Click_delete
  then show ?thesis by (simp add: saveNotes_store split: option.splits)
qed simp_all

text \<open>
  A property of the list of notes that holds of the seeded list, and that every
  considered action keeps, holds in every reachable state, of the list and of the list
  the store holds.
\<close>

lemma reachable_invariant:
  assumes r: "reachable ok st"
    and seed: "\<And>now. Q [welcomeNote now]"
    and pres: "\<And>ev st. ok ev st \<Longrightarrow> Q (notes' st) \<Longrightarrow> Q (notes' (step ev st))"
  shows "Q (notes' st) \<and> (\<exists>ns. localStorage st = Some (stringify ns) \<and> Q ns)"
  using r
proof (induction rule: reachable.induct)
  case (first_run now st)
  then have "st = first_run_state now"
    by (simp add: mount_None)
  then show ?case
    using seed [of now]
    by (auto simp: first_run_state_def seedWelcome_def saveNotes_store useState_initial_def)
next
  case (action st ev)
  then have q: "Q (notes' (step ev st))"
    using pres by blast
  from step_store [of ev st] action.IH q show ?case
    by auto
next
  case (reopened st now st')
  then obtain ns where ns: "localStorage st = Some (stringify ns)" and q: "Q ns"
    by blast
  from reopened.hyps(2) have st': "st' = saveNotes ((useState_initial (Some (stringify ns)))\<lparr>notes' := ns\<rparr>)"
    by (simp add: ns mount_stringify)
  have "notes' st' = ns"
    by (simp add: st')
  moreover have "localStorage st' = Some (stringify ns)"
    by (simp add: st' saveNotes_store useState_initial_def)
  ultimately show ?case
    using q by blast
qed

subsection \<open>What the handlers do to the list of notes\<close>

lemma createNote_notes:
  "notes' (createNote now st) =
     \<lparr>id' = toString now, title = ''Untitled Note'', content = '''', tags = [],
      createdAt = now, updatedAt = now, isStarred = False, isArchived = False\<rparr> # notes' st"
  by (simp add: createNote_def Let_def)

lemma deleteNote_notes:
  "notes' (deleteNote noteId st) = filter (\<lambda>note. id' note \<noteq> noteId) (notes' st)"
  by (simp add: deleteNote_def)

lemma saveNote_notes:
  "notes' (saveNote now st) =
     (case selectedNote st of
        None \<Rightarrow> notes' st
      | Some sel \<Rightarrow>
          map (\<lambda>n. if id' n = id' sel
                then spread n (no_updates\<lparr>title_opt := Some (let t = strip_hash (first_line (editContent st))
                                                in if t = [] then ''Untitled Note'' else t),
                         content_opt := Some (editContent st),
                         tags_opt := Some (extractTags (editContent st))\<rparr>) now
                else n) (notes' st))"
  by (simp add: saveNote_def updateNote_def Let_def split: option.splits)

lemma toggleStar_notes:
  "\<exists>b. notes' (toggleStar now noteId st) =
     map (\<lambda>n. if id' n = noteId then spread n (no_updates\<lparr>isStarred_opt := Some b\<rparr>) now else n)
       (notes' st)"
  by (auto simp: toggleStar_def updateNote_def)

lemma toggleArchive_notes:
  "\<exists>b. notes' (toggleArchive now noteId st) =
     map (\<lambda>n. if id' n = noteId then spread n (no_updates\<lparr>isArchived_opt := Some b\<rparr>) now else n)
       (notes' st)"
  by (auto simp: toggleArchive_def updateNote_def)

lemma other_handlers_notes [simp]:
  "notes' (startEditing st) = notes' st"
  "notes' (cancelEditing st) = notes' st"
  by (simp_all add: startEditing_def cancelEditing_def split: option.splits)

text \<open>
  Every action maps over the list, filters it, or puts a new note in front of it.
\<close>

lemma step_notes_cases:
  "(\<exists>now. ev = Click_new_note now \<and> notes' (step ev st) = notes' (createNote now st))
   \<or> (\<exists>noteId. notes' (step ev st) = filter (\<lambda>note. id' note \<noteq> noteId) (notes' st))
   \<or> (\<exists>noteId u now. caller_updates u \<and>
         notes' (step ev st) = map (\<lambda>n. if id' n = noteId then spread n u now else n) (notes' st))
   \<or> notes' (step ev st) = notes' st"
proof (cases ev)
  case (Click_new_note now)
  then show ?thesis by simp
next
  case (Click_star now)
  show ?thesis
  proof (cases "selectedNote st")
    case None
    with Click_star show ?thesis by simp
  next
    case (Some sel)
    from toggleStar_notes [of now "id' sel" st] obtain b where
      "notes' (toggleStar now (id' sel) st) =
         map (\<lambda>n. if id' n = id' sel then spread n (no_updates\<lparr>isStarred_opt := Some b\<rparr>) now else n)
           (notes' st)"
      by blast
    moreover have "caller_updates (no_updates\<lparr>isStarred_opt := Some b\<rparr>)"
      by (simp add: caller_updates_def no_updates_def)
    ultimately have "\<exists>noteId u now. caller_updates u \<and>
         notes' (step ev st) = map (\<lambda>n. if id' n = noteId then spread n u now else n) (notes' st)"
      using Click_star Some by auto
    then show ?thesis by blast
  qed
next
  case (Click_archive now)
  show ?thesis
  proof (cases "selectedNote st")
    case None
    with Click_archive show ?thesis by simp
  next
    case (Some sel)
    from toggleArchive_notes [of now "id' sel" st] obtain b where
      "notes' (toggleArchive now (id' sel) st) =
         map (\<lambda>n. if id' n = id' sel then spread n (no_updates\<lparr>isArchived_opt := Some b\<rparr>) now else n)
           (notes' st)"
      by blast
    moreover have "caller_updates (no_updates\<lparr>isArchived_opt := Some b\<rparr>)"
      by (simp add: caller_updates_def no_updates_def)
    ultimately have "\<exists>noteId u now. caller_updates u \<and>
         notes' (step ev st) = map (\<lambda>n. if id' n = noteId then spread n u now else n) (notes' st)"
      using Click_archive Some by auto
    then show ?thesis by blast
  qed
next
  case (Click_save now)
  show ?thesis
  proof (cases "selectedNote st \<noteq> None \<and> isEditing st")
    case False
    with Click_save show ?thesis by auto
  next
    case True
    then obtain sel where sel: "selectedNote st = Some sel"
      by blast
    define u where "u = no_updates\<lparr>title_opt := Some (let t = strip_hash (first_line (editContent st))
                                                in if t = [] then ''Untitled Note'' else t),
                         content_opt := Some (editContent st),
                         tags_opt := Some (extractTags (editContent st))\<rparr>"
    have "notes' (step ev st) = map (\<lambda>n. if id' n = id' sel then spread n u now else n) (notes' st)"
      using Click_save True sel by (simp add: saveNote_notes u_def)
    moreover have "caller_updates u"
      by (simp add: u_def no_updates_def caller_updates_def)
    ultimately have "\<exists>noteId u now. caller_updates u \<and>
         notes' (step ev st) = map (\<lambda>n. if id' n = noteId then spread n u now else n) (notes' st)"
      by blast
    then show ?thesis by blast
  qed
next
  case Click_delete
  then show ?thesis
    by (cases "selectedNote st") (auto simp: deleteNote_notes)
qed simp_all

section \<open>Writing the store\<close>

text \<open>
  Claim C4, as amended. After a create, an update or a delete, the save effect has written
  the serialization of the whole list under the key when the list is not empty (after a
  create it never is); when the list is empty the effect writes nothing and the store
  holds what it held before.
\<close>

theorem store_after_mutation:
  "localStorage (saveNotes (createNote now st))
     = Some (stringify (notes' (saveNotes (createNote now st))))
   \<and> localStorage (saveNotes (updateNote now noteId u st))
     = (if notes' (updateNote now noteId u st) \<noteq> []
        then Some (stringify (notes' (saveNotes (updateNote now noteId u st))))
        else localStorage st)
   \<and> localStorage (saveNotes (deleteNote noteId st))
     = (if notes' (deleteNote noteId st) \<noteq> []
        then Some (stringify (notes' (saveNotes (deleteNote noteId st))))
        else localStorage st)"
  by (simp add: saveNotes_store createNote_notes)

theorem store_after_mutation_witness:
  "localStorage (saveNotes (deleteNote ''a'' two_notes_state)) = Some (stringify [two_notes ! 1])
   \<and> localStorage (saveNotes (updateNote 9 ''a'' no_updates (useState_initial None))) = None"
proof -
  have d: "notes' (deleteNote ''a'' two_notes_state) = [two_notes ! 1]"
    by (simp add: deleteNote_notes two_notes_state_def two_notes_def useState_initial_def)
  have u: "notes' (updateNote 9 ''a'' no_updates (useState_initial None)) = []"
    by (simp add: updateNote_notes useState_initial_def)
  have s: "localStorage (useState_initial None) = None"
    by (simp add: useState_initial_def)
  from store_after_mutation [of 9 two_notes_state "''a''" no_updates]
    store_after_mutation [of 9 "useState_initial None" "''a''" no_updates]
  show ?thesis
    by (simp add: d u s)
qed

text \<open>
  The user deletes the welcome note, the only note there is, in the first session: the
  list is empty, and the store still holds the serialization of the list with the
  welcome note.
\<close>

theorem store_after_delete_counterexample:
  "mount 0 None = Loaded (first_run_state 0)
   \<and> notes' (step Click_delete (first_run_state 0)) = []
   \<and> localStorage (step Click_delete (first_run_state 0)) = Some (stringify [welcomeNote 0])
   \<and> localStorage (step Click_delete (first_run_state 0))
       \<noteq> Some (stringify (notes' (step Click_delete (first_run_state 0))))"
proof -
  have sel: "selectedNote (first_run_state 0) = Some (welcomeNote 0)"
    and ns: "notes' (first_run_state 0) = [welcomeNote 0]"
    and st: "localStorage (first_run_state 0) = Some (stringify [welcomeNote 0])"
    by (simp_all add: first_run_state_def seedWelcome_def saveNotes_def useState_initial_def)
  have del: "notes' (deleteNote (id' (welcomeNote 0)) (first_run_state 0)) = []"
    by (simp add: deleteNote_notes ns)
  have ne: "stringify [welcomeNote 0] \<noteq> stringify []"
    by (simp add: stringify_def)
  from sel ns st del ne show ?thesis
    by (simp add: mount_None saveNotes_store)
qed

section \<open>Reading the store\<close>







section \<open>Invariants of the list of notes\<close>

subsection \<open>Tags and content\<close>

lemma extractTags_empty: "extractTags '''' = []"
  by (simp add: extractTags_def match_g_def)

lemma spread_tags:
  assumes u: "caller_updates u" and n: "tags_of_content n \<or> seeded_tags n"
  shows "tags_of_content (spread n u now) \<or> seeded_tags (spread n u now)"
proof (cases "content_opt u")
  case None
  with u have "tags_opt u = None"
    by (simp add: caller_updates_def)
  with None have "content (spread n u now) = content n" "tags (spread n u now) = tags n"
    by (simp_all add: spread_def or_else_def)
  with n show ?thesis
    by (simp add: tags_of_content_def seeded_tags_def)
next
  case (Some c)
  with u have "tags_opt u = Some (extractTags c)"
    by (simp add: caller_updates_def)
  with Some have "tags_of_content (spread n u now)"
    by (simp add: tags_of_content_def spread_def or_else_def)
  then show ?thesis ..
qed

lemma step_tags:
  assumes "\<forall>n \<in> set (notes' st). tags_of_content n \<or> seeded_tags n"
  shows "\<forall>n \<in> set (notes' (step ev st)). tags_of_content n \<or> seeded_tags n"
proof -
  from step_notes_cases [of ev st] consider
    (new) now where "notes' (step ev st) = notes' (createNote now st)"
  | (del) noteId where "notes' (step ev st) = filter (\<lambda>note. id' note \<noteq> noteId) (notes' st)"
  | (upd) noteId u now where "caller_updates u"
      "notes' (step ev st) = map (\<lambda>n. if id' n = noteId then spread n u now else n) (notes' st)"
  | (same) "notes' (step ev st) = notes' st"
    by blast
  then show ?thesis
  proof cases
    case new
    with assms show ?thesis
      by (simp add: createNote_notes tags_of_content_def extractTags_empty)
  next
    case del
    with assms show ?thesis by simp
  next
    case upd
    with assms show ?thesis
      using spread_tags by auto
  next
    case same
    with assms show ?thesis by simp
  qed
qed

lemma welcomeNote_seeded: "seeded_tags (welcomeNote now)"
  by (simp add: seeded_tags_def welcomeNote_def)

lemma first_run_reachable: "reachable ok (first_run_state now)"
  by (rule reachable.first_run) (rule mount_None)

lemma extractTags_welcomeContent:
  "extractTags welcomeContent =
     [''hashtags'', ''tags'', ''personal'', ''work'', ''ideas'', ''welcome'', ''getting-started'']"
  by code_simp

lemma first_run_notes: "notes' (first_run_state now) = [welcomeNote now]"
  by (simp add: first_run_state_def seedWelcome_def useState_initial_def)

lemma first_run_selected: "selectedNote (first_run_state now) = Some (welcomeNote now)"
  by (simp add: first_run_state_def seedWelcome_def saveNotes_def useState_initial_def)

text \<open>
  Claim C3, as amended. In every reachable state, each note either has the tags that the
  tag extractor returns for its content (the lower-case \<open>#word\<close> tokens in the order of
  the text, one for each occurrence), or it still has the text and the tags it was seeded
  with as the welcome note, which are the fixed list \<open>welcome\<close>, \<open>getting-started\<close>.
\<close>

theorem tags_invariant:
  "reachable any_action st \<Longrightarrow> \<forall>n \<in> set (notes' st). tags_of_content n \<or> seeded_tags n"
proof -
  assume r: "reachable any_action st"
  have "(\<forall>n \<in> set (notes' st). tags_of_content n \<or> seeded_tags n)
      \<and> (\<exists>ns. localStorage st = Some (stringify ns)
            \<and> (\<forall>n \<in> set ns. tags_of_content n \<or> seeded_tags n))"
    using r
  proof (rule reachable_invariant)
    show "\<forall>n \<in> set [welcomeNote now]. tags_of_content n \<or> seeded_tags n" for now
      by (simp add: welcomeNote_seeded)
    show "\<forall>n \<in> set (notes' (step ev st)). tags_of_content n \<or> seeded_tags n"
      if "\<forall>n \<in> set (notes' st). tags_of_content n \<or> seeded_tags n" for ev st
      using that by (rule step_tags)
  qed
  then show ?thesis ..
qed

theorem tags_invariant_witness:
  "reachable any_action (step (Click_save 3) (step (Type_content ''Shop #Food #food'')
      (step (Click_new_note 2) (first_run_state 1))))
   \<and> map tags (notes' (step (Click_save 3) (step (Type_content ''Shop #Food #food'')
         (step (Click_new_note 2) (first_run_state 1)))))
       = [[''food'', ''food''], [''welcome'', ''getting-started'']]
   \<and> list_all (\<lambda>n. tags_of_content n \<or> seeded_tags n)
         (notes' (step (Click_save 3) (step (Type_content ''Shop #Food #food'')
           (step (Click_new_note 2) (first_run_state 1)))))"
proof -
  have r: "reachable any_action (step (Click_save 3) (step (Type_content ''Shop #Food #food'')
      (step (Click_new_note 2) (first_run_state 1))))"
    by (intro reachable.action first_run_reachable) (simp_all add: any_action_def)
  have e: "extractTags ''Shop #Food #food'' = [''food'', ''food'']"
    by code_simp
  have s1: "step (Click_new_note 2) (first_run_state 1) = saveNotes (createNote 2 (first_run_state 1))"
    by simp
  have t: "map tags (notes' (step (Click_save 3) (step (Type_content ''Shop #Food #food'')
         (step (Click_new_note 2) (first_run_state 1)))))
       = [[''food'', ''food''], [''welcome'', ''getting-started'']]"
    unfolding s1
    by (simp add: saveNote_notes createNote_def saveNotes_def first_run_notes Let_def
        spread_def or_else_def no_updates_def welcomeNote_def e toString.simps digit_char_def)
  from tags_invariant [OF r] r t show ?thesis
    by (simp add: list_all_iff)
qed

text \<open>
  The seeded welcome note: its text holds seven tag tokens, its tags are two of them.
\<close>

theorem welcome_tags_counterexample:
  "reachable any_action (first_run_state 0)
   \<and> notes' (first_run_state 0) = [welcomeNote 0]
   \<and> tags (welcomeNote 0) = [''welcome'', ''getting-started'']
   \<and> extractTags (content (welcomeNote 0)) =
       [''hashtags'', ''tags'', ''personal'', ''work'', ''ideas'', ''welcome'', ''getting-started'']
   \<and> \<not> tags_of_content (welcomeNote 0)"
proof -
  have c: "content (welcomeNote 0) = welcomeContent"
    and t: "tags (welcomeNote 0) = [''welcome'', ''getting-started'']"
    by (simp_all add: welcomeNote_def)
  show ?thesis
    unfolding tags_of_content_def c t extractTags_welcomeContent
    by (simp add: first_run_reachable first_run_notes)
qed

subsection \<open>Ids\<close>

lemma digit_char_inject: "a < 10 \<Longrightarrow> b < 10 \<Longrightarrow> digit_char a = digit_char b \<Longrightarrow> a = b"
proof -
  assume a: "a < 10" and b: "b < 10" and eq: "digit_char a = digit_char b"
  from eq have "(of_char (digit_char a) :: nat) = of_char (digit_char b)"
    by simp
  with a b show "a = b"
    by (simp add: digit_char_def)
qed

lemma toString_nonempty: "toString n \<noteq> []"
  by (subst toString.simps) simp

lemma toString_inject: "toString n = toString m \<Longrightarrow> n = m"
proof (induction n arbitrary: m rule: less_induct)
  case (less n)
  show ?case
  proof (cases "n < 10")
    case True
    show ?thesis
    proof (cases "m < 10")
      case m: True
      from less.prems True m have "digit_char n = digit_char m"
        by (simp add: toString.simps [of n] toString.simps [of m])
      with True m show ?thesis
        by (rule digit_char_inject)
    next
      case m: False
      from less.prems True m have "[digit_char n] = toString (m div 10) @ [digit_char (m mod 10)]"
        by (simp add: toString.simps [of n] toString.simps [of m])
      then have "toString (m div 10) = []"
        by simp
      then show ?thesis
        by (simp add: toString_nonempty)
    qed
  next
    case False
    show ?thesis
    proof (cases "m < 10")
      case m: True
      from less.prems False m have "toString (n div 10) @ [digit_char (n mod 10)] = [digit_char m]"
        by (simp add: toString.simps [of n] toString.simps [of m])
      then have "toString (n div 10) = []"
        by simp
      then show ?thesis
        by (simp add: toString_nonempty)
    next
      case m: False
      from less.prems False m
      have "toString (n div 10) @ [digit_char (n mod 10)] = toString (m div 10) @ [digit_char (m mod 10)]"
        by (simp add: toString.simps [of n] toString.simps [of m])
      then have q: "toString (n div 10) = toString (m div 10)"
        and d: "digit_char (n mod 10) = digit_char (m mod 10)"
        by simp_all
      from False have "n div 10 < n"
        by simp
      from less.IH [OF this q] have "n div 10 = m div 10" .
      moreover from d have "n mod 10 = m mod 10"
        by (rule digit_char_inject [rotated 2]) simp_all
      ultimately show ?thesis
        by (metis div_mult_mod_eq)
    qed
  qed
qed

lemma spread_id: "caller_updates u \<Longrightarrow> id' (spread n u now) = id' n"
  by (simp add: caller_updates_def spread_def or_else_def)

lemma map_id_update:
  "caller_updates u \<Longrightarrow>
   map id' (map (\<lambda>n. if id' n = noteId then spread n u now else n) ns) = map id' ns"
  by (induction ns) (simp_all add: spread_id)

lemma step_ids_kept:
  assumes "ev \<noteq> Click_delete" and "\<forall>now. ev \<noteq> Click_new_note now"
  shows "map id' (notes' (step ev st)) = map id' (notes' st)"
proof (cases ev)
  case (Click_new_note now)
  with assms show ?thesis by simp
next
  case Click_delete
  with assms show ?thesis by simp
next
  case (Click_star now)
  show ?thesis
  proof (cases "selectedNote st")
    case None
    with Click_star show ?thesis by simp
  next
    case (Some sel)
    from toggleStar_notes [of now "id' sel" st] obtain b where
      "notes' (toggleStar now (id' sel) st) =
         map (\<lambda>n. if id' n = id' sel then spread n (no_updates\<lparr>isStarred_opt := Some b\<rparr>) now else n)
           (notes' st)"
      by blast
    moreover have "caller_updates (no_updates\<lparr>isStarred_opt := Some b\<rparr>)"
      by (simp add: caller_updates_def no_updates_def)
    ultimately have "map id' (notes' (toggleStar now (id' sel) st)) = map id' (notes' st)"
      by (simp only: map_id_update)
    then show ?thesis
      using Click_star Some by simp
  qed
next
  case (Click_archive now)
  show ?thesis
  proof (cases "selectedNote st")
    case None
    with Click_archive show ?thesis by simp
  next
    case (Some sel)
    from toggleArchive_notes [of now "id' sel" st] obtain b where
      "notes' (toggleArchive now (id' sel) st) =
         map (\<lambda>n. if id' n = id' sel then spread n (no_updates\<lparr>isArchived_opt := Some b\<rparr>) now else n)
           (notes' st)"
      by blast
    moreover have "caller_updates (no_updates\<lparr>isArchived_opt := Some b\<rparr>)"
      by (simp add: caller_updates_def no_updates_def)
    ultimately have "map id' (notes' (toggleArchive now (id' sel) st)) = map id' (notes' st)"
      by (simp only: map_id_update)
    then show ?thesis
      using Click_archive Some by simp
  qed
next
  case (Click_save now)
  show ?thesis
  proof (cases "selectedNote st")
    case None
    with Click_save show ?thesis by simp
  next
    case (Some sel)
    have "caller_updates (no_updates\<lparr>title_opt := Some t, content_opt := Some (editContent st),
        tags_opt := Some (extractTags (editContent st))\<rparr>)" for t
      by (simp add: caller_updates_def no_updates_def)
    then have "map id' (notes' (saveNote now st)) = map id' (notes' st)"
      unfolding saveNote_notes Some option.case by (rule map_id_update)
    then show ?thesis
      using Click_save Some by simp
  qed
qed simp_all

lemma step_ids_distinct:
  assumes ok: "fresh_id ev st" and d: "distinct (map id' (notes' st))"
  shows "distinct (map id' (notes' (step ev st)))"
proof (cases ev)
  case (Click_new_note now)
  with ok have "toString now \<notin> id' ` set (notes' st)"
    by (simp add: fresh_id_def)
  with d Click_new_note show ?thesis
    by (simp add: createNote_notes)
next
  case Click_delete
  with d show ?thesis
    by (cases "selectedNote st") (simp_all add: deleteNote_notes distinct_map_filter)
next
  case (Click_note k)
  with d step_ids_kept [of ev st] show ?thesis by simp
next
  case (Click_star now)
  with d step_ids_kept [of ev st] show ?thesis by simp
next
  case (Click_archive now)
  with d step_ids_kept [of ev st] show ?thesis by simp
next
  case Click_edit
  with d step_ids_kept [of ev st] show ?thesis by simp
next
  case Click_cancel
  with d step_ids_kept [of ev st] show ?thesis by simp
next
  case (Click_save now)
  with d step_ids_kept [of ev st] show ?thesis by simp
next
  case (Type_content str)
  with d step_ids_kept [of ev st] show ?thesis by simp
next
  case (Type_search str)
  with d step_ids_kept [of ev st] show ?thesis by simp
next
  case (Click_tag tag)
  with d step_ids_kept [of ev st] show ?thesis by simp
next
  case (Click_sidebar b)
  with d step_ids_kept [of ev st] show ?thesis by simp
qed

lemma toString_5: "toString 5 = ''5''"
  by code_simp

text \<open>
  Claim C9, as amended. The id of a new note is the decimal string of the clock reading,
  and different readings give different strings. In every state reached by actions that
  create a note only at a reading whose string is not yet the id of a note, the ids are
  pairwise distinct. No action other than a create or a delete changes the list of the
  ids; a create puts the new note in front of the notes there are, a delete leaves a
  subsequence of them.
\<close>

theorem ids_distinct_when_fresh:
  "(reachable fresh_id st \<longrightarrow> distinct (map id' (notes' st)))
   \<and> (ev \<noteq> Click_delete \<and> (\<forall>now. ev \<noteq> Click_new_note now)
        \<longrightarrow> map id' (notes' (step ev s)) = map id' (notes' s))
   \<and> map id' (notes' (step (Click_new_note now) s)) = toString now # map id' (notes' s)
   \<and> tl (notes' (step (Click_new_note now) s)) = notes' s
   \<and> subseq (notes' (step Click_delete s)) (notes' s)
   \<and> inj toString"
proof (intro conjI impI)
  assume r: "reachable fresh_id st"
  have "distinct (map id' (notes' st))
      \<and> (\<exists>ns. localStorage st = Some (stringify ns) \<and> distinct (map id' ns))"
    using r
  proof (rule reachable_invariant)
    show "distinct (map id' [welcomeNote now])" for now
      by simp
    show "distinct (map id' (notes' (step ev st)))"
      if "fresh_id ev st" "distinct (map id' (notes' st))" for ev st
      using that by (rule step_ids_distinct)
  qed
  then show "distinct (map id' (notes' st))" ..
next
  assume "ev \<noteq> Click_delete \<and> (\<forall>now. ev \<noteq> Click_new_note now)"
  then show "map id' (notes' (step ev s)) = map id' (notes' s)"
    by (simp add: step_ids_kept)
next
  show "map id' (notes' (step (Click_new_note now) s)) = toString now # map id' (notes' s)"
    by (simp add: createNote_notes)
  show "tl (notes' (step (Click_new_note now) s)) = notes' s"
    by (simp add: createNote_notes)
  show "subseq (notes' (step Click_delete s)) (notes' s)"
    by (cases "selectedNote s") (simp_all add: deleteNote_notes)
  show "inj toString"
    by (rule injI) (rule toString_inject)
qed

theorem ids_distinct_when_fresh_witness:
  "reachable fresh_id (step (Click_new_note 5) (first_run_state 0))
   \<and> distinct (map id' (notes' (step (Click_new_note 5) (first_run_state 0))))
   \<and> map id' (notes' (step (Click_star 7) (step (Click_new_note 5) (first_run_state 0))))
       = [''5'', ''welcome'']"
proof -
  have ids0: "map id' (notes' (first_run_state 0)) = [''welcome'']"
    by (simp add: first_run_notes welcomeNote_def)
  have "fresh_id (Click_new_note 5) (first_run_state 0)"
    by (simp add: fresh_id_def first_run_notes welcomeNote_def toString_5)
  with first_run_reachable [of fresh_id 0]
  have r: "reachable fresh_id (step (Click_new_note 5) (first_run_state 0))"
    by (rule reachable.action)
  have ev: "Click_star 7 \<noteq> Click_delete \<and> (\<forall>now. Click_star 7 \<noteq> Click_new_note now)"
    by simp
  note t1 = ids_distinct_when_fresh
    [of "step (Click_new_note 5) (first_run_state 0)" "Click_star 7"
      "step (Click_new_note 5) (first_run_state 0)" 5]
  note t2 = ids_distinct_when_fresh
    [of "step (Click_new_note 5) (first_run_state 0)" "Click_star 7" "first_run_state 0" 5]
  from t1 r have d: "distinct (map id' (notes' (step (Click_new_note 5) (first_run_state 0))))"
    by blast
  from t1 ev have "map id' (notes' (step (Click_star 7) (step (Click_new_note 5) (first_run_state 0))))
      = map id' (notes' (step (Click_new_note 5) (first_run_state 0)))"
    by blast
  also from t2 have "\<dots> = toString 5 # map id' (notes' (first_run_state 0))"
    by blast
  finally have "map id' (notes' (step (Click_star 7) (step (Click_new_note 5) (first_run_state 0))))
      = [''5'', ''welcome'']"
    by (simp add: toString_5 ids0)
  with r d show ?thesis by simp
qed

text \<open>
  Two notes created at the same reading of the clock have the same id.
\<close>

theorem same_clock_ids_counterexample:
  "reachable any_action (step (Click_new_note 5) (step (Click_new_note 5) (first_run_state 0)))
   \<and> map id' (notes' (step (Click_new_note 5) (step (Click_new_note 5) (first_run_state 0))))
       = [''5'', ''5'', ''welcome'']
   \<and> \<not> distinct (map id' (notes' (step (Click_new_note 5)
         (step (Click_new_note 5) (first_run_state 0)))))"
proof -
  have "reachable any_action (step (Click_new_note 5) (step (Click_new_note 5) (first_run_state 0)))"
    by (intro reachable.action first_run_reachable) (simp_all add: any_action_def)
  moreover have "map id' (notes' (step (Click_new_note 5) (step (Click_new_note 5) (first_run_state 0))))
       = [''5'', ''5'', ''welcome'']"
    by (simp add: createNote_notes first_run_notes welcomeNote_def toString_5)
  ultimately show ?thesis by simp
qed

section \<open>Markup in a paragraph\<close>

subsection \<open>What a global replacement keeps\<close>

lemma replace_g_copies:
  assumes "\<And>c cs. c \<in> set t \<Longrightarrow> m (c # cs) = None"
  shows "replace_g m r (t @ v) = t @ replace_g m r v"
  using assms by (induction t) simp_all

lemma sublist_behind: "sublist t ys \<Longrightarrow> sublist t (xs @ ys)"
  by (metis append.assoc sublist_def)

lemma sublist_before: "sublist t xs \<Longrightarrow> sublist t (xs @ ys)"
  by (metis append.assoc sublist_def)

text \<open>
  A piece \<open>t\<close> of the text is a piece of the result when no match starts inside of it and
  every match that starts before it either ends before it or takes it into its
  replacement.
\<close>

lemma replace_g_keeps:
  assumes start: "\<And>c cs. c \<in> set t \<Longrightarrow> m (c # cs) = None"
    and over: "\<And>u v cap n. m (u @ t @ v) = Some (cap, n) \<Longrightarrow>
                 n \<le> length u \<or> sublist t (r cap)"
  shows "sublist t (replace_g m r (u @ t @ v))"
proof (induction u rule: length_induct)
  case (1 u)
  show ?case
  proof (cases u)
    case Nil
    have "replace_g m r (t @ v) = t @ replace_g m r v"
      using start by (rule replace_g_copies)
    with Nil show ?thesis by simp
  next
    case (Cons c u')
    have ih: "sublist t (replace_g m r (w @ t @ v))" if "length w < length u" for w
      using 1 that by blast
    show ?thesis
    proof (cases "m (u @ t @ v)")
      case None
      then have "replace_g m r (u @ t @ v) = c # replace_g m r (u' @ t @ v)"
        using Cons by simp
      moreover have "sublist t (replace_g m r (u' @ t @ v))"
        using Cons by (intro ih) simp
      ultimately show ?thesis
        by (simp add: sublist_Cons_right)
    next
      case (Some p)
      obtain cap n where p: "p = (cap, n)"
        by (cases p)
      show ?thesis
      proof (cases "n = 0")
        case True
        then have "replace_g m r (u @ t @ v) = r cap @ c # replace_g m r (u' @ t @ v)"
          using Cons Some p by simp
        moreover have "sublist t (replace_g m r (u' @ t @ v))"
          using Cons by (intro ih) simp
        ultimately show ?thesis
          by (simp add: sublist_behind sublist_Cons_right)
      next
        case False
        then have eq: "replace_g m r (u @ t @ v) = r cap @ replace_g m r (drop n (u @ t @ v))"
          using Cons Some p by simp
        from over [OF Some [unfolded p]] show ?thesis
        proof
          assume le: "n \<le> length u"
          then have "drop n (u @ t @ v) = drop n u @ t @ v"
            by simp
          moreover have "sublist t (replace_g m r (drop n u @ t @ v))"
            using False Cons by (intro ih) simp
          ultimately show ?thesis
            by (simp add: eq sublist_behind)
        next
          assume "sublist t (r cap)"
          then show ?thesis
            by (simp add: eq sublist_before)
        qed
      qed
    qed
  qed
qed

subsection \<open>The delimited matches\<close>

lemma lazy_until_prefix:
  "lazy_until d s = Some (cap, n) \<Longrightarrow> prefix (cap @ d) s \<and> n = length cap + length d"
proof (induction s arbitrary: cap n)
  case Nil
  then show ?case
    by (simp split: if_splits)
next
  case (Cons c cs)
  show ?case
  proof (cases "prefix d (c # cs)")
    case True
    with Cons.prems show ?thesis by simp
  next
    case False
    with Cons.prems obtain cap' n' where
      rec: "lazy_until d cs = Some (cap', n')" and cap: "cap = c # cap'" and n: "n = Suc n'"
      by (auto split: if_splits option.splits)
    from Cons.IH [OF rec] show ?thesis
      by (simp add: cap n)
  qed
qed

lemma delimited_shape:
  assumes "delimited d s = Some (cap, n)"
  shows "prefix (d @ cap @ d) s \<and> n = length d + length cap + length d"
proof -
  from assms have pre: "prefix d s"
    by (simp add: delimited_def split: if_splits)
  from assms obtain n' where rec: "lazy_until d (drop (length d) s) = Some (cap, n')"
    and n: "n = length d + n'"
    by (auto simp: delimited_def split: if_splits option.splits)
  from lazy_until_prefix [OF rec]
  have p: "prefix (cap @ d) (drop (length d) s)" and n': "n' = length cap + length d"
    by simp_all
  from pre obtain s' where s: "s = d @ s'"
    by (auto simp: prefix_def)
  from p s have "prefix (d @ cap @ d) s"
    by simp
  with n n' show ?thesis
    by simp
qed

lemma delimited_start:
  assumes "d \<noteq> []" and "c \<notin> set d"
  shows "delimited d (c # cs) = None"
proof -
  from assms have "\<not> prefix d (c # cs)"
    by (cases d) (auto simp: prefix_def)
  then show ?thesis
    by (simp add: delimited_def)
qed

text \<open>
  A delimited match that reaches into a piece without delimiter characters has the whole
  piece in its capture group.
\<close>

lemma delimited_over:
  assumes m: "delimited d (u @ t @ v) = Some (cap, n)"
    and d: "d \<noteq> []" and t: "set t \<inter> set d = {}"
  shows "n \<le> length u \<or> sublist t cap"
proof (cases "t = [] \<or> n \<le> length u")
  case True
  then show ?thesis by auto
next
  case False
  then have tne: "t \<noteq> []" and un: "length u < n"
    by simp_all
  from delimited_shape [OF m] obtain rest where
    s: "u @ t @ v = d @ cap @ d @ rest" and n: "n = length d + length cap + length d"
    by (auto simp: prefix_def)
  have in_t: "(u @ t @ v) ! k \<in> set t" if "length u \<le> k" "k < length u + length t" for k
  proof -
    from that have "k - length u < length t"
      by arith
    moreover from that this have "(u @ t @ v) ! k = t ! (k - length u)"
      by (simp add: nth_append)
    ultimately show ?thesis
      by simp
  qed
  have in_d: "(d @ cap @ d @ rest) ! k \<in> set d"
    if "k < length d \<or> (length d + length cap \<le> k \<and> k < n)" for k
    using that n by (auto simp: nth_append)
  have du: "length d \<le> length u"
  proof (rule ccontr)
    assume "\<not> length d \<le> length u"
    then have "(d @ cap @ d @ rest) ! length u \<in> set d"
      by (intro in_d) simp
    moreover have "(u @ t @ v) ! length u \<in> set t"
      using tne by (intro in_t) simp_all
    ultimately show False
      using t s by auto
  qed
  have ut: "length u + length t \<le> length d + length cap"
  proof (rule ccontr)
    assume a: "\<not> length u + length t \<le> length d + length cap"
    define k where "k = max (length u) (length d + length cap)"
    have "(u @ t @ v) ! k \<in> set t"
      using a tne by (intro in_t) (simp_all add: k_def)
    moreover have "(d @ cap @ d @ rest) ! k \<in> set d"
      using un n d by (intro in_d) (simp add: k_def)
    ultimately show False
      using t s by auto
  qed
  have "t = take (length t) (drop (length u) (u @ t @ v))"
    by simp
  also have "\<dots> = take (length t) (drop (length u) (d @ cap @ d @ rest))"
    by (simp only: s)
  also have "\<dots> = take (length t) (drop (length u - length d) cap)"
    using du ut by simp
  finally have "t = take (length t) (drop (length u - length d) cap)" .
  moreover have "sublist (take (length t) (drop (length u - length d) cap)) cap"
    by (rule sublist_order.order.trans [OF sublist_take sublist_drop])
  ultimately show ?thesis
    by simp
qed

lemma replace_delimited_keeps:
  assumes d: "d \<noteq> []" and t: "set t \<inter> set d = {}" and sub: "sublist t s"
  shows "sublist t (replace_g (delimited d) (\<lambda>cap. a @ cap @ b) s)"
proof -
  from sub obtain u v where s: "s = u @ t @ v"
    by (auto simp: sublist_def)
  have "sublist t (replace_g (delimited d) (\<lambda>cap. a @ cap @ b) (u @ t @ v))"
  proof (rule replace_g_keeps)
    show "delimited d (c # cs) = None" if "c \<in> set t" for c cs
      using that t d by (intro delimited_start) auto
    show "n \<le> length u' \<or> sublist t (a @ cap @ b)"
      if "delimited d (u' @ t @ v') = Some (cap, n)" for u' v' cap n
      using delimited_over [OF that d t] by (auto intro: sublist_behind sublist_before)
  qed
  with s show ?thesis by simp
qed

subsection \<open>The tag matches\<close>

lemma takeWhile_stops:
  assumes "t \<noteq> []" and "\<not> P (hd t)"
  shows "length (takeWhile P (u @ t @ v)) \<le> length u"
  using assms by (induction u) (auto simp: takeWhile_eq_Nil_iff)

lemma tagRegex_start: "c \<noteq> CHR ''#'' \<Longrightarrow> tagRegex (c # cs) = None"
  by (simp add: tagRegex_def)

lemma tagRegex_over:
  assumes m: "tagRegex (u @ t @ v) = Some (cap, n)"
    and t: "t \<noteq> []" "\<not> isTagChar (hd t)" "CHR ''#'' \<notin> set t"
  shows "n \<le> length u"
proof (cases u)
  case Nil
  with t obtain c cs where "u @ t @ v = c # cs" and "c \<noteq> CHR ''#''"
    by (cases t) auto
  with m show ?thesis
    by (simp add: tagRegex_start)
next
  case (Cons c u')
  with m have "n = Suc (length (takeWhile isTagChar (u' @ t @ v)))"
    by (auto simp: tagRegex_def split: if_splits)
  moreover have "length (takeWhile isTagChar (u' @ t @ v)) \<le> length u'"
    using t(1,2) by (rule takeWhile_stops)
  ultimately show ?thesis
    using Cons by simp
qed

lemma replace_tag_keeps:
  assumes h: "CHR ''#'' \<notin> set t" and hd: "t = [] \<or> \<not> isTagChar (hd t)" and sub: "sublist t s"
  shows "sublist t (replace_g tagRegex r s)"
proof (cases "t = []")
  case True
  then show ?thesis by simp
next
  case False
  from sub obtain u v where s: "s = u @ t @ v"
    by (auto simp: sublist_def)
  have "sublist t (replace_g tagRegex r (u @ t @ v))"
  proof (rule replace_g_keeps)
    show "tagRegex (c # cs) = None" if "c \<in> set t" for c cs
      using that h by (intro tagRegex_start) auto
    show "n \<le> length u' \<or> sublist t (r cap)"
      if "tagRegex (u' @ t @ v') = Some (cap, n)" for u' v' cap n
      using tagRegex_over [OF that False] hd h False by simp
  qed
  with s show ?thesis by simp
qed

subsection \<open>The four replacements of a paragraph\<close>

lemma formatLine_keeps:
  assumes sub: "sublist t line"
    and t: "set t \<inter> {CHR ''*'', CHR ''`'', CHR ''#''} = {}"
    and hd: "t = [] \<or> \<not> isTagChar (hd t)"
  shows "sublist t (formatLine line)"
proof -
  from t have star2: "set t \<inter> set ''**'' = {}" and star: "set t \<inter> set ''*'' = {}"
    and tick: "set t \<inter> set ''`'' = {}" and hash: "CHR ''#'' \<notin> set t"
    by auto
  show ?thesis
    unfolding formatLine_def Let_def
    by (intro replace_tag_keeps replace_delimited_keeps sub star2 star tick hash hd) simp_all
qed

lemma formatLine_plain:
  assumes "set line \<inter> {CHR ''*'', CHR ''`'', CHR ''#''} = {}"
  shows "formatLine line = line"
proof -
  have copy: "replace_g m r line = line" if "\<And>c cs. c \<in> set line \<Longrightarrow> m (c # cs) = None" for m r
    using replace_g_copies [of line m r "[]"] that by simp
  have 1: "replace_g (delimited ''**'') r line = line" for r
    using assms by (intro copy delimited_start) auto
  have 2: "replace_g (delimited ''*'') r line = line" for r
    using assms by (intro copy delimited_start) auto
  have 3: "replace_g (delimited ''`'') r line = line" for r
    using assms by (intro copy delimited_start) auto
  have 4: "replace_g tagRegex r line = line" for r
    using assms by (intro copy tagRegex_start) auto
  show ?thesis
    by (simp add: formatLine_def 1 2 3 4)
qed

lemma renderLine_Para: "renderLine line = Para html \<Longrightarrow> html = formatLine line"
  by (simp add: renderLine_def split: if_splits)

text \<open>
  Claim C10, as amended. The markup of a paragraph is the line after the four
  replacements, and nothing is escaped: a piece of the line that holds none of the marker
  characters \<open>*\<close>, \<open>`\<close>, \<open>#\<close> and does not begin with a word character or a hyphen (as
  an HTML element that begins with \<open><\<close>) is a piece of the markup, character for
  character; a line without marker characters is its own markup.
\<close>

theorem paragraph_markup_verbatim:
  "(renderLine line = Para html \<and> sublist t line
      \<and> set t \<inter> {CHR ''*'', CHR ''`'', CHR ''#''} = {} \<and> (t = [] \<or> \<not> isTagChar (hd t))
      \<longrightarrow> sublist t html)
   \<and> (renderLine line = Para html \<and> set line \<inter> {CHR ''*'', CHR ''`'', CHR ''#''} = {}
      \<longrightarrow> html = line)"
proof (intro conjI impI)
  assume a: "renderLine line = Para html \<and> sublist t line
      \<and> set t \<inter> {CHR ''*'', CHR ''`'', CHR ''#''} = {} \<and> (t = [] \<or> \<not> isTagChar (hd t))"
  then have "html = formatLine line"
    by (simp add: renderLine_Para)
  moreover from a have "sublist t (formatLine line)"
    by (intro formatLine_keeps) simp_all
  ultimately show "sublist t html"
    by simp
next
  assume a: "renderLine line = Para html \<and> set line \<inter> {CHR ''*'', CHR ''`'', CHR ''#''} = {}"
  then have "html = formatLine line"
    by (simp add: renderLine_Para)
  with a show "html = line"
    by (simp add: formatLine_plain)
qed

theorem paragraph_markup_verbatim_witness:
  "renderLine ''Hi **you** <script>alert(1)</script>''
     = Para ''Hi <strong>you</strong> <script>alert(1)</script>''
   \<and> sublist ''<script>alert(1)</script>'' ''Hi <strong>you</strong> <script>alert(1)</script>''
   \<and> renderLine ''<img src=x onerror=alert(1)>'' = Para ''<img src=x onerror=alert(1)>''"
proof -
  have r1: "renderLine ''Hi **you** <script>alert(1)</script>''
     = Para ''Hi <strong>you</strong> <script>alert(1)</script>''"
    by code_simp
  have s1: "sublist ''<script>alert(1)</script>'' ''Hi **you** <script>alert(1)</script>''"
    by code_simp
  have m1: "set ''<script>alert(1)</script>'' \<inter> {CHR ''*'', CHR ''`'', CHR ''#''} = {}"
    by simp
  have h1: "\<not> isTagChar (hd ''<script>alert(1)</script>'')"
    by (simp add: isTagChar_def isWordChar_def)
  have r2: "renderLine ''<img src=x onerror=alert(1)>'' = Para (formatLine ''<img src=x onerror=alert(1)>'')"
    by (simp add: renderLine_def startsWith_def trim_def isSpace_def)
  have m2: "set ''<img src=x onerror=alert(1)>'' \<inter> {CHR ''*'', CHR ''`'', CHR ''#''} = {}"
    by simp
  from paragraph_markup_verbatim
    [of "''Hi **you** <script>alert(1)</script>''"
      "''Hi <strong>you</strong> <script>alert(1)</script>''" "''<script>alert(1)</script>''"]
    r1 s1 m1 h1
  have c1: "sublist ''<script>alert(1)</script>'' ''Hi <strong>you</strong> <script>alert(1)</script>''"
    by blast
  from paragraph_markup_verbatim
    [of "''<img src=x onerror=alert(1)>''" "formatLine ''<img src=x onerror=alert(1)>''" "[]"]
    r2 m2
  have c2: "formatLine ''<img src=x onerror=alert(1)>'' = ''<img src=x onerror=alert(1)>''"
    by blast
  from r1 c1 r2 c2 show ?thesis
    by simp
qed

text \<open>
  An element with a \<open>#\<close> in it: the tag replacement puts a \<open>span\<close> into the attribute,
  and the element is no longer in the markup as it was written.
\<close>

theorem attribute_hash_counterexample:
  \<open>renderContent ''<a href="#top">top</a>''
     = [Para ''<a href="<span class="text-blue-600 font-medium">#top</span>">top</a>'']
   \<and> sublist ''<a href="#top">'' ''<a href="#top">top</a>''
   \<and> \<not> sublist ''<a href="#top">''
         ''<a href="<span class="text-blue-600 font-medium">#top</span>">top</a>''\<close>
  by code_simp

end
